theory Spec2Isabelle
  imports Main
begin

section \<open>The state of the App component (frontend/src/App.jsx)\<close>

text \<open>
  The component holds nine pieces of state, one per \<^verbatim>\<open>useState\<close> call. They are the
  fields of \<open>app_state\<close>, under the names of the source. A \<^verbatim>\<open>File\<close> object is
  known by its name only; \<^verbatim>\<open>null\<close> is \<open>None\<close>.
\<close>

type_synonym js_file = string

record mapping =
  case_id :: string
  activity :: string
  timestamp :: string
  resource :: string

text \<open>
  A cell of a preview row is a JSON scalar. A number is carried as the text that
  \<^verbatim>\<open>String(value)\<close> makes of it. A row is a JSON object: its entries in order.
\<close>

datatype cell = CString string | CNumber string | CNull

type_synonym row = "(string \<times> cell) list"

text \<open>The body of a successful \<^verbatim>\<open>POST /upload\<close>: \<^verbatim>\<open>file_id\<close>, \<^verbatim>\<open>columns\<close>, \<^verbatim>\<open>preview\<close>.\<close>

record upload_data =
  file_id :: string
  data_columns :: "string list"
  data_preview :: "row list"

text \<open>
  The body of a successful \<^verbatim>\<open>POST /analyze\<close>, as far as it matters below: the member
  \<^verbatim>\<open>variants\<close>, present or not (\<^verbatim>\<open>'variants' in result\<close>), whose entries have a
  \<^verbatim>\<open>variant\<close>, shown as text, and a number of \<^verbatim>\<open>cases\<close>; and the names of the other
  members (\<^verbatim>\<open>statistics\<close>, \<^verbatim>\<open>discovery\<close>).
\<close>

record variant_entry =
  variant :: string
  cases :: int

record analysis_body =
  variants :: "variant_entry list option"
  other_members :: "string list"

record app_state =
  "file" :: "js_file option"
  fileId :: string
  columns :: "string list"
  preview :: "row list"
  mapping :: mapping
  analyses :: "string list"
  result :: "analysis_body option"
  loading :: bool
  error :: string

definition analysisLabels :: "(string \<times> string) list" where
  "analysisLabels =
     [(''discovery'', ''Process discovery''),
      (''statistics'', ''Statistiques''),
      (''variants'', ''Variants'')]"

definition initial_mapping :: mapping where
  "initial_mapping = \<lparr>case_id = [], activity = [], timestamp = [], resource = []\<rparr>"

definition initial_state :: app_state where
  "initial_state =
     \<lparr>file = None, fileId = [], columns = [], preview = [],
      mapping = initial_mapping,
      analyses = [''discovery'', ''statistics'', ''variants''],
      result = None, loading = False, error = []\<rparr>"

section \<open>canAnalyze and the analyze button\<close>

text \<open>
  \<^verbatim>\<open>fileId && mapping.case_id && mapping.activity && mapping.timestamp && analyses.length > 0\<close>
  is a chain of JavaScript \<^verbatim>\<open>&&\<close>: each yields its left operand when that is falsy
  and its right operand otherwise, so the value is a string or a boolean. A string is
  truthy when it is not empty.
\<close>

datatype js_value = JString string | JBoolean bool

fun truthy :: "js_value \<Rightarrow> bool" where
  "truthy (JString s) = (s \<noteq> [])"
| "truthy (JBoolean b) = b"

definition js_and :: "js_value \<Rightarrow> js_value \<Rightarrow> js_value" where
  "js_and a b = (if truthy a then b else a)"

definition canAnalyze :: "app_state \<Rightarrow> js_value" where
  "canAnalyze s =
     js_and (js_and (js_and (js_and (JString (fileId s)) (JString (case_id (mapping s))))
                            (JString (activity (mapping s))))
                    (JString (timestamp (mapping s))))
            (JBoolean (0 < length (analyses s)))"

text \<open>The button that runs the analysis: \<^verbatim>\<open>disabled={!canAnalyze || loading}\<close>.\<close>

definition analyze_disabled :: "app_state \<Rightarrow> bool" where
  "analyze_disabled s = (\<not> truthy (canAnalyze s) \<or> loading s)"

section \<open>Requests and their outcomes\<close>

text \<open>
  A \<^verbatim>\<open>fetch\<close> ends in one of four ways: the promise rejects (network error), the
  response is not \<^verbatim>\<open>ok\<close>, the response is \<^verbatim>\<open>ok\<close> but reading its body as JSON
  rejects, or the body is read. For a response that is not \<^verbatim>\<open>ok\<close>, \<open>body_detail\<close>
  is the member \<^verbatim>\<open>detail\<close> of the body, as the text the \<^verbatim>\<open>Error\<close> constructor makes
  of it, when the body parses as JSON and has such a member that is neither
  \<^verbatim>\<open>null\<close> nor \<^verbatim>\<open>undefined\<close>.
\<close>

record error_response =
  body_text :: string
  body_detail :: "string option"

datatype 'a fetch_outcome =
  Network_failure string
| Not_ok error_response
| Ok_unreadable string
| Ok_json 'a

definition parseError :: "error_response \<Rightarrow> string" where
  "parseError response = (case body_detail response of Some d \<Rightarrow> d | None \<Rightarrow> body_text response)"

text \<open>
  The \<^verbatim>\<open>try\<close> block up to the parsed body: \<open>Inl\<close> is the message of the error that
  is thrown, \<open>Inr\<close> the body.
\<close>

fun awaited :: "'a fetch_outcome \<Rightarrow> string + 'a" where
  "awaited (Network_failure m) = Inl m"
| "awaited (Not_ok response) = Inl (parseError response)"
| "awaited (Ok_unreadable m) = Inl m"
| "awaited (Ok_json d) = Inr d"

subsection \<open>onUpload\<close>

text \<open>
  \<^verbatim>\<open>a || b\<close> on strings yields \<^verbatim>\<open>a\<close> when it is not empty and \<^verbatim>\<open>b\<close> otherwise.
  In \<^verbatim>\<open>data.columns[i] || ''\<close>, reading past the end of a JavaScript array gives
  \<^verbatim>\<open>undefined\<close>, which is falsy. The updater of the mapping computes
  \<^verbatim>\<open>prev.case_id || data.columns[0] || ''\<close>, that is
  \<^verbatim>\<open>(prev.case_id || data.columns[0]) || ''\<close>; it is written here as
  \<^verbatim>\<open>prev.case_id || (data.columns[0] || '')\<close>, which has the same value: the first
  operand that is not empty, or the empty string.
\<close>

definition js_or :: "string \<Rightarrow> string \<Rightarrow> string" where
  "js_or a b = (if a \<noteq> [] then a else b)"

definition column_or_empty :: "string list \<Rightarrow> nat \<Rightarrow> string" where
  "column_or_empty cols i = (if i < length cols then js_or (cols ! i) [] else [])"

definition auto_fill :: "upload_data \<Rightarrow> mapping \<Rightarrow> mapping" where
  "auto_fill d prev =
     \<lparr>case_id = js_or (case_id prev) (column_or_empty (data_columns d) 0),
      activity = js_or (activity prev) (column_or_empty (data_columns d) 1),
      timestamp = js_or (timestamp prev) (column_or_empty (data_columns d) 2),
      resource = js_or (resource prev) []\<rparr>"

text \<open>The three state updates before the request is sent.\<close>

definition request_begin :: "app_state \<Rightarrow> app_state" where
  "request_begin s = s\<lparr>error := [], result := None, loading := True\<rparr>"

text \<open>What runs once the request has settled: the rest of \<^verbatim>\<open>try\<close>, \<^verbatim>\<open>catch\<close>, \<^verbatim>\<open>finally\<close>.\<close>

definition onUpload_settle :: "upload_data fetch_outcome \<Rightarrow> app_state \<Rightarrow> app_state" where
  "onUpload_settle r s =
     (case awaited r of
        Inr d \<Rightarrow>
          s\<lparr>fileId := file_id d, columns := data_columns d, preview := data_preview d,
            mapping := auto_fill d (mapping s), loading := False\<rparr>
      | Inl m \<Rightarrow> s\<lparr>error := ''Upload impossible: '' @ m, loading := False\<rparr>)"

text \<open>The whole handler, with nothing happening while the request is in flight.\<close>

definition onUpload :: "upload_data fetch_outcome \<Rightarrow> app_state \<Rightarrow> app_state" where
  "onUpload r s = (if file s = None then s else onUpload_settle r (request_begin s))"

subsection \<open>runAnalysis\<close>

text \<open>The request body: \<^verbatim>\<open>{ file_id: fileId, mapping, analyses }\<close>.\<close>

record analyze_request =
  req_file_id :: string
  req_mapping :: mapping
  req_analyses :: "string list"

definition request_body :: "app_state \<Rightarrow> analyze_request" where
  "request_body s =
     \<lparr>req_file_id = fileId s, req_mapping = mapping s, req_analyses = analyses s\<rparr>"

definition runAnalysis_settle :: "analysis_body fetch_outcome \<Rightarrow> app_state \<Rightarrow> app_state" where
  "runAnalysis_settle r s =
     (case awaited r of
        Inr body \<Rightarrow> s\<lparr>result := Some body, loading := False\<rparr>
      | Inl m \<Rightarrow> s\<lparr>error := ''Analyse impossible: '' @ m, loading := False\<rparr>)"

definition runAnalysis :: "analysis_body fetch_outcome \<Rightarrow> app_state \<Rightarrow> app_state" where
  "runAnalysis r s = runAnalysis_settle r (request_begin s)"

section \<open>The form controls\<close>

text \<open>
  The four selects of the mapping card. Each offers the empty value and every entry of
  \<^verbatim>\<open>columns\<close>, and its handler is
  \<^verbatim>\<open>setMapping((prev) => ({ ...prev, [key]: e.target.value }))\<close>.
\<close>

datatype field = Case_id | Activity | Timestamp | Resource

fun set_field :: "field \<Rightarrow> string \<Rightarrow> mapping \<Rightarrow> mapping" where
  "set_field Case_id v prev = prev\<lparr>case_id := v\<rparr>"
| "set_field Activity v prev = prev\<lparr>activity := v\<rparr>"
| "set_field Timestamp v prev = prev\<lparr>timestamp := v\<rparr>"
| "set_field Resource v prev = prev\<lparr>resource := v\<rparr>"

definition select_options :: "app_state \<Rightarrow> string list" where
  "select_options s = [] # columns s"

text \<open>
  The handler of an analysis checkbox:
  \<^verbatim>\<open>e.target.checked ? [...current, key] : current.filter((entry) => entry !== key)\<close>.
\<close>

definition onChange_analysis :: "string \<Rightarrow> bool \<Rightarrow> string list \<Rightarrow> string list" where
  "onChange_analysis key checked current =
     (if checked then current @ [key] else filter (\<lambda>entry. entry \<noteq> key) current)"

section \<open>Events\<close>

text \<open>
  An event is what the rendered page lets happen. Beside the state of the component, the
  page has a request in flight or none; the handlers are asynchronous, so other events
  may come between the start of a request and its end.
  \<^item> The file input sets \<^verbatim>\<open>file\<close>.
  \<^item> The upload form is submitted by its button, \<^verbatim>\<open>disabled={!file || loading}\<close>.
  \<^item> The selects are rendered when \<^verbatim>\<open>columns\<close> is not empty, and a select yields one
    of its options.
  \<^item> There is one checkbox per key of \<^verbatim>\<open>analysisLabels\<close>, rendered with
    \<^verbatim>\<open>checked={analyses.includes(key)}\<close>; a change event carries the opposite of what
    is rendered.
  \<^item> The analyze button is \<^verbatim>\<open>disabled={!canAnalyze || loading}\<close>; the request
    body is built from the state at the click.
\<close>

datatype in_flight = Idle | Uploading | Analyzing analyze_request

datatype event =
  Choose_file "js_file option"
| Submit_upload
| Upload_settles "upload_data fetch_outcome"
| Select field string
| Toggle string
| Click_analyze
| Analysis_settles "analysis_body fetch_outcome"

type_synonym page = "app_state \<times> in_flight"

fun fire :: "event \<Rightarrow> page \<Rightarrow> page option" where
  "fire (Choose_file f) (s, q) = Some (s\<lparr>file := f\<rparr>, q)"
| "fire Submit_upload (s, q) =
     (if file s = None \<or> loading s then None else Some (request_begin s, Uploading))"
| "fire (Upload_settles r) (s, q) =
     (if q = Uploading then Some (onUpload_settle r s, Idle) else None)"
| "fire (Select key v) (s, q) =
     (if columns s \<noteq> [] \<and> v \<in> set (select_options s)
      then Some (s\<lparr>mapping := set_field key v (mapping s)\<rparr>, q) else None)"
| "fire (Toggle key) (s, q) =
     (if key \<in> set (map fst analysisLabels)
      then Some (s\<lparr>analyses := onChange_analysis key (key \<notin> set (analyses s)) (analyses s)\<rparr>, q)
      else None)"
| "fire Click_analyze (s, q) =
     (if analyze_disabled s then None else Some (request_begin s, Analyzing (request_body s)))"
| "fire (Analysis_settles r) (s, q) =
     (case q of Analyzing req \<Rightarrow> Some (runAnalysis_settle r s, Idle) | _ \<Rightarrow> None)"

text \<open>A sequence of events from a page; \<open>None\<close> when one of them cannot happen.\<close>

fun exec :: "event list \<Rightarrow> page \<Rightarrow> page option" where
  "exec [] u = Some u"
| "exec (e # es) u = (case fire e u of None \<Rightarrow> None | Some u' \<Rightarrow> exec es u')"

definition initial_page :: page where
  "initial_page = (initial_state, Idle)"

text \<open>The bodies of the uploads that succeeded in a sequence of events, oldest first.\<close>

fun uploaded :: "event \<Rightarrow> upload_data list" where
  "uploaded (Upload_settles (Ok_json d)) = [d]"
| "uploaded _ = []"

definition uploads :: "event list \<Rightarrow> upload_data list" where
  "uploads evs = concat (map uploaded evs)"

definition mapping_values :: "mapping \<Rightarrow> string list" where
  "mapping_values m = [case_id m, activity m, timestamp m, resource m]"

section \<open>What is rendered\<close>

text \<open>\<^verbatim>\<open>String(value)\<close> of a cell.\<close>

fun String_js :: "cell \<Rightarrow> string" where
  "String_js (CString s) = s"
| "String_js (CNumber t) = t"
| "String_js CNull = ''null''"

text \<open>
  The body of the preview table: one \<^verbatim>\<open>tr\<close> per entry of \<^verbatim>\<open>preview\<close>, one
  \<^verbatim>\<open>td\<close> per entry of the row. The card is rendered when \<^verbatim>\<open>preview.length > 0\<close>.
\<close>

definition preview_rows :: "app_state \<Rightarrow> string list list" where
  "preview_rows s =
     (if 0 < length (preview s)
      then map (\<lambda>row. map (\<lambda>(key, v). String_js v) row) (preview s) else [])"

text \<open>
  The items of the card ``Top variants'':
  \<^verbatim>\<open>result.variants.slice(0, 5).map((entry) => <li>{entry.variant} ({entry.cases})</li>)\<close>,
  rendered when \<^verbatim>\<open>result\<close> is not null and has a member \<^verbatim>\<open>variants\<close>. An item is the
  pair of the two values it shows.
\<close>

definition top_variants :: "app_state \<Rightarrow> (string \<times> int) list" where
  "top_variants s =
     (case result s of
        None \<Rightarrow> []
      | Some body \<Rightarrow>
          (case variants body of
             None \<Rightarrow> []
           | Some vs \<Rightarrow> map (\<lambda>entry. (variant entry, cases entry)) (take 5 vs)))"

section \<open>The backend, from its specification\<close>

text \<open>
  The component talks to a backend whose code is not among the sources. What is needed
  of it below is taken from sections 4.1, 4.4 and 6 of the specification.
\<close>

subsection \<open>Dataset Store and Upload\<close>

record table =
  table_columns :: "string list"
  table_rows :: "row list"

record dataset =
  ds_columns :: "string list"
  ds_rows :: "row list"
  ds_preview :: "row list"

record dataset_store =
  issued :: nat
  stored :: "(string \<times> dataset) list"

text \<open>
  Modelled from the spec: the identifier that \<open>put\<close> assigns is fresh and opaque. Here
  the n-th identifier issued is a run of n + 1 letters; any naming without repetition
  would do.
\<close>

definition fresh_id :: "nat \<Rightarrow> string" where
  "fresh_id n = replicate (Suc n) (CHR ''d'')"

text \<open>
  Modelled from the spec: the capped preview of a table, its first 20 rows
  (sections 4.1 and 6).
\<close>

definition capped_preview :: "table \<Rightarrow> row list" where
  "capped_preview t = take 20 (table_rows t)"

text \<open>
  Modelled from the spec: \<open>put\<close> of the Dataset Store (section 4.1), which assigns a
  fresh identifier and stores the table verbatim plus a capped preview.
\<close>

definition put :: "dataset_store \<Rightarrow> table \<Rightarrow> string \<times> dataset_store" where
  "put st t =
     (fresh_id (issued st),
      \<lparr>issued = Suc (issued st),
       stored = (fresh_id (issued st),
                 \<lparr>ds_columns = table_columns t, ds_rows = table_rows t,
                  ds_preview = capped_preview t\<rparr>) # stored st\<rparr>)"

text \<open>
  Modelled from the spec: \<open>get\<close> of the Dataset Store (section 4.1), a pure lookup;
  \<open>None\<close> is \<open>NotFound\<close>.
\<close>

definition get :: "dataset_store \<Rightarrow> string \<Rightarrow> dataset option" where
  "get st i = map_of (stored st) i"

datatype upload_error = InvalidFile | EmptyFile

text \<open>
  Modelled from the spec: the operation \<open>Upload\<close> (section 6), which answers with the
  dataset id, the columns and the preview, and fails with \<open>InvalidFile\<close> when the source
  cannot be parsed into a table and with \<open>EmptyFile\<close> when the table has no column. The
  table-parsing service is a collaborator: the parameter \<open>parse_table\<close>.
\<close>

definition Upload ::
  "('src \<Rightarrow> table option) \<Rightarrow> dataset_store \<Rightarrow> 'src \<Rightarrow> upload_error + upload_data \<times> dataset_store"
where
  "Upload parse_table st src =
     (case parse_table src of
        None \<Rightarrow> Inl InvalidFile
      | Some t \<Rightarrow>
          if table_columns t = [] then Inl EmptyFile
          else Inr (\<lparr>file_id = fst (put st t), data_columns = table_columns t,
                     data_preview = capped_preview t\<rparr>, snd (put st t)))"

subsection \<open>Analysis Orchestrator\<close>

datatype status = Ok | Partial | Failed

datatype request_error = EmptyAnalyses | UnknownAnalysis string

datatype 'e run_error = NotFound | MappingError 'e

text \<open>
  An analysis is a function of the event log; \<open>Inl\<close> is its failure descriptor, \<open>Inr\<close>
  its payload. The registry is a fixed mapping from names to analyses.
\<close>

type_synonym ('log, 'p) analysis = "'log \<Rightarrow> string + 'p"

type_synonym ('log, 'p) registry = "string \<Rightarrow> ('log, 'p) analysis option"

record ('p, 'e) analysis_response =
  resp_status :: status
  resp_results :: "(string \<times> (string + 'p)) list"
  resp_error :: "'e run_error option"

text \<open>
  Modelled from the spec: the names of a request are resolved into registry entries at
  the boundary (sections 4.3 and 9); \<open>Inl\<close> is the first unknown name.
\<close>

fun resolve ::
  "('log, 'p) registry \<Rightarrow> string list \<Rightarrow> string + (string \<times> ('log, 'p) analysis) list"
where
  "resolve reg [] = Inr []"
| "resolve reg (n # ns) =
     (case reg n of
        None \<Rightarrow> Inl n
      | Some f \<Rightarrow> (case resolve reg ns of Inl u \<Rightarrow> Inl u | Inr fs \<Rightarrow> Inr ((n, f) # fs)))"

text \<open>
  Modelled from the spec: step 4 of \<open>run\<close> (section 4.4): \<open>ok\<close> if all analyses
  succeeded, \<open>partial\<close> if some did, \<open>failed\<close> if none did.
\<close>

definition overall_status :: "(string \<times> (string + 'p)) list \<Rightarrow> status" where
  "overall_status rs =
     (if list_all (\<lambda>(n, r). \<not> isl r) rs then Ok
      else if list_ex (\<lambda>(n, r). \<not> isl r) rs then Partial else Failed)"

text \<open>
  Modelled from the spec: \<open>run\<close> of the Analysis Orchestrator (section 4.4). The
  dataset is resolved, the mapping validated by the Schema Mapper (the parameter
  \<open>validate_and_map\<close>), then every requested analysis is invoked in the order requested
  and its outcome recorded, a failure not aborting the others. A failure of the first
  two steps is a full \<open>failed\<close> response with no results.
\<close>

definition run ::
  "dataset_store \<Rightarrow> (dataset \<Rightarrow> mapping \<Rightarrow> 'e + 'log) \<Rightarrow> (string \<times> ('log, 'p) analysis) list
   \<Rightarrow> analyze_request \<Rightarrow> ('p, 'e) analysis_response"
where
  "run st validate_and_map fs request =
     (case get st (req_file_id request) of
        None \<Rightarrow> \<lparr>resp_status = Failed, resp_results = [], resp_error = Some NotFound\<rparr>
      | Some ds \<Rightarrow>
          (case validate_and_map ds (req_mapping request) of
             Inl e \<Rightarrow>
               \<lparr>resp_status = Failed, resp_results = [], resp_error = Some (MappingError e)\<rparr>
           | Inr log \<Rightarrow>
               \<lparr>resp_status = overall_status (map (\<lambda>(n, f). (n, f log)) fs),
                resp_results = map (\<lambda>(n, f). (n, f log)) fs,
                resp_error = None\<rparr>))"

text \<open>
  Modelled from the spec: the operation \<open>Analyze\<close> (section 6), which rejects at the
  boundary a request whose analyses are empty or name an unknown analysis, before the
  dataset is resolved.
\<close>

definition Analyze ::
  "dataset_store \<Rightarrow> (dataset \<Rightarrow> mapping \<Rightarrow> 'e + 'log) \<Rightarrow> ('log, 'p) registry
   \<Rightarrow> analyze_request \<Rightarrow> request_error + ('p, 'e) analysis_response"
where
  "Analyze st validate_and_map reg request =
     (if req_analyses request = [] then Inl EmptyAnalyses
      else (case resolve reg (req_analyses request) of
              Inl n \<Rightarrow> Inl (UnknownAnalysis n)
            | Inr fs \<Rightarrow> Inr (run st validate_and_map fs request)))"

section \<open>Invariants of the page\<close>

text \<open>
  Three predicates used in the proofs below; they state properties and embed no code.
  \<open>latest ds s\<close>: the dataset part of the state is that of the last successful
  upload among \<open>ds\<close>, or still empty when there is none. \<open>from_uploads ds m\<close>: every
  field of \<open>m\<close> that is set names a column of one of the uploads \<open>ds\<close>.
\<close>

definition latest :: "upload_data list \<Rightarrow> app_state \<Rightarrow> bool" where
  "latest ds s =
     (if ds = [] then fileId s = [] \<and> columns s = [] \<and> preview s = []
      else fileId s = file_id (last ds) \<and> columns s = data_columns (last ds)
           \<and> preview s = data_preview (last ds))"

definition from_uploads :: "upload_data list \<Rightarrow> mapping \<Rightarrow> bool" where
  "from_uploads ds m =
     (\<forall>v \<in> set (mapping_values m). v \<noteq> [] \<longrightarrow> (\<exists>d \<in> set ds. v \<in> set (data_columns d)))"

text \<open>
  \<open>begun\<close>: \<^verbatim>\<open>loading\<close> is true exactly while a request is in flight, and then
  \<^verbatim>\<open>error\<close> and \<^verbatim>\<open>result\<close> are as the start of the request left them.
\<close>

fun begun :: "page \<Rightarrow> bool" where
  "begun (s, q) =
     (if q = Idle then \<not> loading s else loading s \<and> error s = [] \<and> result s = None)"

section \<open>Concrete pages and responses\<close>

text \<open>The state after a file with the columns a, b, c has been uploaded.\<close>

definition abc_upload :: upload_data where
  "abc_upload = \<lparr>file_id = ''f1'', data_columns = [''a'', ''b'', ''c''], data_preview = []\<rparr>"

definition ready_state :: app_state where
  "ready_state =
     \<lparr>file = Some ''log.csv'', fileId = ''f1'', columns = [''a'', ''b'', ''c''], preview = [],
      mapping = \<lparr>case_id = ''a'', activity = ''b'', timestamp = ''c'', resource = []\<rparr>,
      analyses = [''discovery'', ''statistics'', ''variants''],
      result = None, loading = False, error = []\<rparr>"

text \<open>
  One upload, then a second one that replaces the dataset; and one upload followed by
  the choice of the column a for the activity.
\<close>

definition xyz_upload :: upload_data where
  "xyz_upload = \<lparr>file_id = ''f2'', data_columns = [''x'', ''y'', ''z''], data_preview = []\<rparr>"

definition one_upload :: "event list" where
  "one_upload =
     [Choose_file (Some ''log.csv''), Submit_upload, Upload_settles (Ok_json abc_upload)]"

definition two_uploads :: "event list" where
  "two_uploads = one_upload @ [Submit_upload, Upload_settles (Ok_json xyz_upload)]"

definition stale_state :: app_state where
  "stale_state =
     \<lparr>file = Some ''log.csv'', fileId = ''f2'', columns = [''x'', ''y'', ''z''], preview = [],
      mapping = \<lparr>case_id = ''a'', activity = ''b'', timestamp = ''c'', resource = []\<rparr>,
      analyses = [''discovery'', ''statistics'', ''variants''],
      result = None, loading = False, error = []\<rparr>"

definition repeated_column :: "event list" where
  "repeated_column = one_upload @ [Select Activity ''a'']"

definition repeated_state :: app_state where
  "repeated_state =
     \<lparr>file = Some ''log.csv'', fileId = ''f1'', columns = [''a'', ''b'', ''c''], preview = [],
      mapping = \<lparr>case_id = ''a'', activity = ''a'', timestamp = ''c'', resource = []\<rparr>,
      analyses = [''discovery'', ''statistics'', ''variants''],
      result = None, loading = False, error = []\<rparr>"

text \<open>Three changes of the analysis checkboxes.\<close>

definition toggling :: "event list" where
  "toggling = [Toggle ''statistics'', Toggle ''discovery'', Toggle ''statistics'']"

text \<open>A response of the variants analysis with six variants, in descending case count.\<close>

definition six_variants :: "variant_entry list" where
  "six_variants =
     [\<lparr>variant = ''a,b'', cases = 9\<rparr>, \<lparr>variant = ''a,c'', cases = 7\<rparr>,
      \<lparr>variant = ''a,d'', cases = 5\<rparr>, \<lparr>variant = ''a,e'', cases = 3\<rparr>,
      \<lparr>variant = ''a,f'', cases = 2\<rparr>, \<lparr>variant = ''a,g'', cases = 1\<rparr>]"

definition six_body :: analysis_body where
  "six_body = \<lparr>variants = Some six_variants, other_members = []\<rparr>"

text \<open>
  A table of 21 rows, the store before any upload, and what \<open>Upload\<close> answers for that
  table; the state once a file has been chosen.
\<close>

definition long_table :: table where
  "long_table =
     \<lparr>table_columns = [''a''],
      table_rows = replicate 20 [(''a'', CString ''x'')] @ [[(''a'', CString ''last'')]]\<rparr>"

definition empty_store :: dataset_store where
  "empty_store = \<lparr>issued = 0, stored = []\<rparr>"

definition long_upload :: upload_data where
  "long_upload =
     \<lparr>file_id = ''d'', data_columns = [''a''],
      data_preview = replicate 20 [(''a'', CString ''x'')]\<rparr>"

definition chosen_state :: app_state where
  "chosen_state = initial_state\<lparr>file := Some ''log.csv''\<rparr>"

text \<open>
  A registry over event logs that are lists of case sizes, in which the statistics fail
  on a log with no case; a mapper that yields such a log; a request for the three
  analyses on the dataset stored above.
\<close>

definition demo_registry :: "(nat list, nat) registry" where
  "demo_registry =
     map_of
       [(''discovery'', \<lambda>log. Inr (length log)),
        (''statistics'', \<lambda>log. if log = [] then Inl ''no cases'' else Inr (sum_list log)),
        (''variants'', \<lambda>log. Inr (length (remdups log)))]"

definition demo_mapper :: "dataset \<Rightarrow> mapping \<Rightarrow> string + nat list" where
  "demo_mapper ds m = Inr []"

definition demo_request :: analyze_request where
  "demo_request =
     \<lparr>req_file_id = ''d'',
      req_mapping = \<lparr>case_id = ''a'', activity = ''a'', timestamp = ''a'', resource = []\<rparr>,
      req_analyses = [''discovery'', ''statistics'', ''variants'']\<rparr>"

definition demo_store :: dataset_store where
  "demo_store = snd (put empty_store long_table)"

text \<open>An upload of a dataset with two columns.\<close>

definition xy_upload :: upload_data where
  "xy_upload = \<lparr>file_id = ''f3'', data_columns = [''x'', ''y''], data_preview = []\<rparr>"

section \<open>Properties\<close>

subsection \<open>Sequences of events\<close>

lemma exec_snoc:
  "exec (es @ [e]) u = (case exec es u of None \<Rightarrow> None | Some u' \<Rightarrow> fire e u')"
  by (induction es arbitrary: u) (auto split: option.splits)

lemma exec_invariant:
  assumes "exec evs u = Some u'" and "I u"
    and "\<And>e v v'. I v \<Longrightarrow> fire e v = Some v' \<Longrightarrow> I v'"
  shows "I u'"
  using assms(1,2)
proof (induction evs arbitrary: u)
  case Nil
  then show ?case by simp
next
  case (Cons e es)
  then show ?case using assms(3) by (auto split: option.splits)
qed

lemma uploads_snoc: "uploads (es @ [e]) = uploads es @ uploaded e"
  by (simp add: uploads_def)

lemma fire_begun:
  assumes "begun v" and "fire e v = Some v'"
  shows "begun v'"
proof (cases v)
  case (Pair s q)
  show ?thesis
  proof (cases e)
    case (Upload_settles r)
    with assms Pair show ?thesis
      by (cases "awaited r") (auto simp: onUpload_settle_def split: if_splits)
  next
    case (Analysis_settles r)
    with assms Pair show ?thesis
      by (cases "awaited r") (auto simp: runAnalysis_settle_def split: if_splits in_flight.splits)
  qed (use assms Pair in \<open>auto simp: request_begin_def analyze_disabled_def split: if_splits\<close>)
qed

lemma exec_begun: "exec evs initial_page = Some v \<Longrightarrow> begun v"
  by (rule exec_invariant [of evs initial_page v begun])
    (simp_all add: initial_page_def initial_state_def fire_begun)

lemmas run_defs = initial_page_def initial_state_def initial_mapping_def request_begin_def
  onUpload_settle_def auto_fill_def js_or_def column_or_empty_def select_options_def
  analyze_disabled_def canAnalyze_def js_and_def

lemma exec_one_upload: "exec one_upload initial_page = Some (ready_state, Idle)"
  by (simp add: one_upload_def abc_upload_def ready_state_def run_defs)

subsection \<open>The dataset of the page is the latest upload\<close>

lemma fire_latest:
  assumes "fire e (s, q) = Some (s', q')" and "latest ds s"
  shows "latest (ds @ uploaded e) s'"
proof (cases e)
  case (Upload_settles r)
  with assms show ?thesis
    by (cases r) (auto simp: onUpload_settle_def latest_def split: if_splits)
next
  case (Analysis_settles r)
  with assms show ?thesis
    by (cases "awaited r")
      (auto simp: runAnalysis_settle_def latest_def split: if_splits in_flight.splits)
qed (use assms in \<open>auto simp: request_begin_def latest_def split: if_splits\<close>)

lemma exec_latest:
  "exec evs initial_page = Some (s, q) \<Longrightarrow> latest (uploads evs) s"
proof (induction evs arbitrary: s q rule: rev_induct)
  case Nil
  then show ?case
    by (auto simp: initial_page_def initial_state_def latest_def uploads_def)
next
  case (snoc e es)
  then obtain s0 q0
    where "exec es initial_page = Some (s0, q0)" and "fire e (s0, q0) = Some (s, q)"
    by (auto simp: exec_snoc split: option.splits)
  with snoc.IH show ?case
    by (simp add: uploads_snoc fire_latest)
qed

subsection \<open>The fields of the mapping name uploaded columns\<close>

lemma from_uploads_set_field:
  assumes "from_uploads ds m" and "v = [] \<or> (\<exists>d \<in> set ds. v \<in> set (data_columns d))"
  shows "from_uploads ds (set_field key v m)"
  using assms by (cases key) (auto simp: from_uploads_def mapping_values_def)

lemma from_uploads_auto_fill:
  assumes "from_uploads ds m"
  shows "from_uploads (ds @ [d]) (auto_fill d m)"
  using assms
  by (auto simp: from_uploads_def mapping_values_def auto_fill_def js_or_def column_or_empty_def)

lemma fire_from_uploads:
  assumes "fire e (s, q) = Some (s', q')" and "latest ds s" and "from_uploads ds (mapping s)"
  shows "from_uploads (ds @ uploaded e) (mapping s')"
proof (cases e)
  case (Upload_settles r)
  with assms show ?thesis
    by (cases r) (auto simp: onUpload_settle_def from_uploads_auto_fill split: if_splits)
next
  case (Analysis_settles r)
  with assms show ?thesis
    by (cases "awaited r") (auto simp: runAnalysis_settle_def split: if_splits in_flight.splits)
next
  case (Select key v)
  with assms(1) have c: "columns s \<noteq> []" and v: "v = [] \<or> v \<in> set (columns s)"
    and s': "mapping s' = set_field key v (mapping s)"
    by (auto simp: select_options_def split: if_splits)
  from c assms(2) have "ds \<noteq> []" and "columns s = data_columns (last ds)"
    by (auto simp: latest_def split: if_splits)
  with v have "v = [] \<or> (\<exists>d \<in> set ds. v \<in> set (data_columns d))"
    using last_in_set by auto
  with assms(3) s' Select show ?thesis
    by (simp add: from_uploads_set_field)
qed (use assms in \<open>auto simp: request_begin_def split: if_splits\<close>)

lemma exec_from_uploads:
  "exec evs initial_page = Some (s, q) \<Longrightarrow> from_uploads (uploads evs) (mapping s)"
proof (induction evs arbitrary: s q rule: rev_induct)
  case Nil
  then show ?case
    by (auto simp: initial_page_def initial_state_def initial_mapping_def from_uploads_def
        mapping_values_def)
next
  case (snoc e es)
  then obtain s0 q0
    where e: "exec es initial_page = Some (s0, q0)" and f: "fire e (s0, q0) = Some (s, q)"
    by (auto simp: exec_snoc split: option.splits)
  from fire_from_uploads [OF f exec_latest [OF e] snoc.IH [OF e]] show ?case
    by (simp add: uploads_snoc)
qed

subsection \<open>The analyze action\<close>

text \<open>
  Claim C1. In every state, \<^verbatim>\<open>canAnalyze\<close> is \<^verbatim>\<open>true\<close> if and only if
  \<^verbatim>\<open>fileId\<close> is present, the three required fields of the mapping are non-empty
  strings and the list of analyses is not empty; otherwise it is falsy (an empty string
  or \<^verbatim>\<open>false\<close>). The button is enabled when \<^verbatim>\<open>canAnalyze\<close> is true and no
  request is loading, so a request is issued under these conditions only.
\<close>

theorem canAnalyze_iff_valid:
  "(canAnalyze s = JBoolean True) =
     (fileId s \<noteq> [] \<and> case_id (mapping s) \<noteq> [] \<and> activity (mapping s) \<noteq> []
      \<and> timestamp (mapping s) \<noteq> [] \<and> analyses s \<noteq> [])
   \<and> truthy (canAnalyze s) = (canAnalyze s = JBoolean True)
   \<and> (\<not> analyze_disabled s) = (canAnalyze s = JBoolean True \<and> \<not> loading s)"
  by (simp add: canAnalyze_def js_and_def analyze_disabled_def)

theorem canAnalyze_iff_valid_witness:
  "canAnalyze ready_state = JBoolean True \<and> \<not> analyze_disabled ready_state
   \<and> canAnalyze initial_state \<noteq> JBoolean True \<and> analyze_disabled initial_state"
  using canAnalyze_iff_valid [of ready_state] canAnalyze_iff_valid [of initial_state]
  by (simp add: ready_state_def initial_state_def initial_mapping_def canAnalyze_def js_and_def)

subsection \<open>The analysis checkboxes\<close>

lemma onChange_analysis_distinct:
  assumes "distinct current" and "set current \<subseteq> A" and "key \<in> A"
  shows "distinct (onChange_analysis key (key \<notin> set current) current)
    \<and> set (onChange_analysis key (key \<notin> set current) current) \<subseteq> A"
  using assms by (auto simp: onChange_analysis_def)

lemma fire_analyses:
  assumes "fire e (s, q) = Some (s', q')"
    and "distinct (analyses s) \<and> set (analyses s) \<subseteq> set (map fst analysisLabels)"
  shows "distinct (analyses s') \<and> set (analyses s') \<subseteq> set (map fst analysisLabels)"
proof (cases e)
  case (Toggle key)
  with assms(1) have k: "key \<in> set (map fst analysisLabels)"
    and s': "analyses s' = onChange_analysis key (key \<notin> set (analyses s)) (analyses s)"
    by (auto split: if_splits)
  from onChange_analysis_distinct [OF _ _ k, of "analyses s"] assms(2) s'
  show ?thesis by simp
next
  case (Upload_settles r)
  with assms show ?thesis
    by (cases "awaited r") (auto simp: onUpload_settle_def split: if_splits)
next
  case (Analysis_settles r)
  with assms show ?thesis
    by (cases "awaited r") (auto simp: runAnalysis_settle_def split: if_splits in_flight.splits)
qed (use assms in \<open>auto simp: request_begin_def split: if_splits\<close>)

text \<open>
  Claim C4. In every state reached from the initial one by a sequence of events (changes
  of the analysis checkboxes, and any other event of the page), the analyses are
  pairwise distinct names among discovery, statistics and variants.
\<close>

theorem analyses_distinct_known:
  assumes "exec evs initial_page = Some (s, q)"
  shows "distinct (analyses s)
    \<and> set (analyses s) \<subseteq> {''discovery'', ''statistics'', ''variants''}"
proof -
  let ?I = "\<lambda>u. distinct (analyses (fst u)) \<and> set (analyses (fst u)) \<subseteq> set (map fst analysisLabels)"
  have "?I (s, q)"
  proof (rule exec_invariant [OF assms, of ?I])
    show "?I initial_page"
      by (simp add: initial_page_def initial_state_def analysisLabels_def)
  next
    fix e v v'
    assume "?I v" and "fire e v = Some v'"
    then show "?I v'"
      using fire_analyses [of e "fst v" "snd v" "fst v'" "snd v'"] by simp
  qed
  then show ?thesis by (simp add: analysisLabels_def)
qed

theorem analyses_distinct_known_witness:
  "exec toggling initial_page =
     Some (initial_state\<lparr>analyses := [''variants'', ''statistics'']\<rparr>, Idle)
   \<and> distinct [''variants'', ''statistics'']
   \<and> set [''variants'', ''statistics''] \<subseteq> {''discovery'', ''statistics'', ''variants''}"
proof -
  have e: "exec toggling initial_page =
     Some (initial_state\<lparr>analyses := [''variants'', ''statistics'']\<rparr>, Idle)"
    by (simp add: toggling_def initial_page_def initial_state_def analysisLabels_def
        onChange_analysis_def)
  from analyses_distinct_known [OF e] e show ?thesis by simp
qed

subsection \<open>The card of the variants\<close>

text \<open>
  Claim C5, as stated, fails: the card lists five entries, not twenty. Of a response
  with six variants the sixth is not listed.
\<close>

theorem top_variants_not_twenty:
  "length six_variants = 6
   \<and> top_variants (runAnalysis (Ok_json six_body) ready_state) =
       [(''a,b'', 9), (''a,c'', 7), (''a,d'', 5), (''a,e'', 3), (''a,f'', 2)]
   \<and> length (top_variants (runAnalysis (Ok_json six_body) ready_state)) = 5"
  by (simp add: six_variants_def six_body_def top_variants_def runAnalysis_def
      runAnalysis_settle_def request_begin_def)

text \<open>
  Claim C5, amended. The card ``Top variants'' lists, for each of the first five entries
  of the variants of the response, its variant and its count of cases, in the order of
  the response; when the response is in descending order of case count, so is the card.
\<close>

theorem top_variants_first_five:
  assumes "variants body = Some vs"
  shows "top_variants (runAnalysis (Ok_json body) s) =
           map (\<lambda>entry. (variant entry, cases entry)) (take 5 vs)
    \<and> length (top_variants (runAnalysis (Ok_json body) s)) = min 5 (length vs)
    \<and> (sorted_wrt (\<lambda>a b. cases b \<le> cases a) vs
        \<longrightarrow> sorted_wrt (\<lambda>a b. snd b \<le> snd a) (top_variants (runAnalysis (Ok_json body) s)))"
proof -
  have t: "top_variants (runAnalysis (Ok_json body) s) =
           map (\<lambda>entry. (variant entry, cases entry)) (take 5 vs)"
    using assms
    by (simp add: top_variants_def runAnalysis_def runAnalysis_settle_def request_begin_def)
  have "sorted_wrt (\<lambda>a b. cases b \<le> cases a) (take 5 vs)"
    if "sorted_wrt (\<lambda>a b. cases b \<le> cases a) vs"
    using that by (rule sorted_wrt_take)
  then show ?thesis
    unfolding t by (simp add: sorted_wrt_map)
qed

theorem top_variants_first_five_witness:
  "variants six_body = Some six_variants
   \<and> sorted_wrt (\<lambda>a b. cases b \<le> cases a) six_variants
   \<and> top_variants (runAnalysis (Ok_json six_body) ready_state) =
       [(''a,b'', 9), (''a,c'', 7), (''a,d'', 5), (''a,e'', 3), (''a,f'', 2)]
   \<and> sorted_wrt (\<lambda>a b. snd b \<le> snd a)
        (top_variants (runAnalysis (Ok_json six_body) ready_state))"
proof -
  have v: "variants six_body = Some six_variants"
    by (simp add: six_body_def)
  have s: "sorted_wrt (\<lambda>a b. cases b \<le> cases a) six_variants"
    by (simp add: six_variants_def)
  from top_variants_first_five [OF v, of ready_state] v s show ?thesis
    by (simp add: six_variants_def)
qed

subsection \<open>onUpload\<close>

lemma auto_fill_fields:
  "auto_fill d m =
     \<lparr>case_id = (if case_id m \<noteq> [] then case_id m
                  else if 0 < length (data_columns d) then data_columns d ! 0 else []),
      activity = (if activity m \<noteq> [] then activity m
                  else if 1 < length (data_columns d) then data_columns d ! 1 else []),
      timestamp = (if timestamp m \<noteq> [] then timestamp m
                  else if 2 < length (data_columns d) then data_columns d ! 2 else []),
      resource = resource m\<rparr>"
  by (simp add: auto_fill_def js_or_def column_or_empty_def)

text \<open>
  Claim C8. After a successful upload, each of \<^verbatim>\<open>case_id\<close>, \<^verbatim>\<open>activity\<close> and
  \<^verbatim>\<open>timestamp\<close> that was empty is the first, second and third column returned, or stays
  empty when the dataset has no such column; a field that was set keeps its value, and
  \<^verbatim>\<open>resource\<close> is left as it was.
\<close>

theorem onUpload_auto_fill:
  "(file s \<noteq> None \<longrightarrow>
      mapping (onUpload (Ok_json d) s) =
        \<lparr>case_id = (if case_id (mapping s) \<noteq> [] then case_id (mapping s)
                     else if 0 < length (data_columns d) then data_columns d ! 0 else []),
         activity = (if activity (mapping s) \<noteq> [] then activity (mapping s)
                     else if 1 < length (data_columns d) then data_columns d ! 1 else []),
         timestamp = (if timestamp (mapping s) \<noteq> [] then timestamp (mapping s)
                     else if 2 < length (data_columns d) then data_columns d ! 2 else []),
         resource = resource (mapping s)\<rparr>)
   \<and> (fire (Upload_settles (Ok_json d)) (s0, q0) = Some (s1, q1) \<longrightarrow>
      mapping s1 =
        \<lparr>case_id = (if case_id (mapping s0) \<noteq> [] then case_id (mapping s0)
                     else if 0 < length (data_columns d) then data_columns d ! 0 else []),
         activity = (if activity (mapping s0) \<noteq> [] then activity (mapping s0)
                     else if 1 < length (data_columns d) then data_columns d ! 1 else []),
         timestamp = (if timestamp (mapping s0) \<noteq> [] then timestamp (mapping s0)
                     else if 2 < length (data_columns d) then data_columns d ! 2 else []),
         resource = resource (mapping s0)\<rparr>)"
proof (rule conjI; rule impI)
  assume "file s \<noteq> None"
  then have "mapping (onUpload (Ok_json d) s) = auto_fill d (mapping s)"
    by (auto simp: onUpload_def onUpload_settle_def request_begin_def)
  then show "mapping (onUpload (Ok_json d) s) =
        \<lparr>case_id = (if case_id (mapping s) \<noteq> [] then case_id (mapping s)
                     else if 0 < length (data_columns d) then data_columns d ! 0 else []),
         activity = (if activity (mapping s) \<noteq> [] then activity (mapping s)
                     else if 1 < length (data_columns d) then data_columns d ! 1 else []),
         timestamp = (if timestamp (mapping s) \<noteq> [] then timestamp (mapping s)
                     else if 2 < length (data_columns d) then data_columns d ! 2 else []),
         resource = resource (mapping s)\<rparr>"
    by (simp only: auto_fill_fields)
next
  assume "fire (Upload_settles (Ok_json d)) (s0, q0) = Some (s1, q1)"
  then have "mapping s1 = auto_fill d (mapping s0)"
    by (auto simp: onUpload_settle_def split: if_splits)
  then show "mapping s1 =
        \<lparr>case_id = (if case_id (mapping s0) \<noteq> [] then case_id (mapping s0)
                     else if 0 < length (data_columns d) then data_columns d ! 0 else []),
         activity = (if activity (mapping s0) \<noteq> [] then activity (mapping s0)
                     else if 1 < length (data_columns d) then data_columns d ! 1 else []),
         timestamp = (if timestamp (mapping s0) \<noteq> [] then timestamp (mapping s0)
                     else if 2 < length (data_columns d) then data_columns d ! 2 else []),
         resource = resource (mapping s0)\<rparr>"
    by (simp only: auto_fill_fields)
qed

theorem onUpload_auto_fill_witness:
  "file chosen_state \<noteq> None
   \<and> mapping chosen_state = \<lparr>case_id = [], activity = [], timestamp = [], resource = []\<rparr>
   \<and> mapping (onUpload (Ok_json xy_upload) chosen_state) =
       \<lparr>case_id = ''x'', activity = ''y'', timestamp = [], resource = []\<rparr>
   \<and> fire (Upload_settles (Ok_json abc_upload))
        (request_begin (onUpload (Ok_json xy_upload) chosen_state), Uploading) =
       Some (onUpload (Ok_json abc_upload) (onUpload (Ok_json xy_upload) chosen_state), Idle)
   \<and> mapping (onUpload (Ok_json abc_upload) (onUpload (Ok_json xy_upload) chosen_state)) =
       \<lparr>case_id = ''x'', activity = ''y'', timestamp = ''c'', resource = []\<rparr>"
proof -
  let ?s = "onUpload (Ok_json xy_upload) chosen_state"
  have f: "file chosen_state \<noteq> None"
    by (simp add: chosen_state_def)
  then have f': "file ?s \<noteq> None"
    by (auto simp: onUpload_def onUpload_settle_def request_begin_def)
  have e: "fire (Upload_settles (Ok_json abc_upload)) (request_begin ?s, Uploading) =
       Some (onUpload (Ok_json abc_upload) ?s, Idle)"
    using f' by (auto simp: onUpload_def)
  have m: "mapping chosen_state =
       \<lparr>case_id = [], activity = [], timestamp = [], resource = []\<rparr>"
    by (simp add: chosen_state_def initial_state_def initial_mapping_def)
  from onUpload_auto_fill [of chosen_state xy_upload "request_begin ?s" Uploading
      "onUpload (Ok_json abc_upload) ?s" Idle] f m
  have m1: "mapping ?s = \<lparr>case_id = ''x'', activity = ''y'', timestamp = [], resource = []\<rparr>"
    by (simp add: xy_upload_def)
  from onUpload_auto_fill [of ?s abc_upload "request_begin ?s" Uploading
      "onUpload (Ok_json abc_upload) ?s" Idle] f' m1
  have m2: "mapping (onUpload (Ok_json abc_upload) ?s) =
       \<lparr>case_id = ''x'', activity = ''y'', timestamp = ''c'', resource = []\<rparr>"
    by (simp add: abc_upload_def)
  from f m m1 e m2 show ?thesis
    by simp
qed

text \<open>
  Claim C9. When the upload request fails, \<^verbatim>\<open>fileId\<close>, \<^verbatim>\<open>columns\<close>,
  \<^verbatim>\<open>preview\<close> and \<^verbatim>\<open>mapping\<close> keep their values, \<^verbatim>\<open>result\<close> is null and
  \<^verbatim>\<open>error\<close> is the message of the failure after the prefix ``Upload impossible: '';
  nothing else changes but \<^verbatim>\<open>loading\<close>, which is false.
\<close>

theorem onUpload_failure:
  "(file s \<noteq> None \<and> awaited r = Inl m \<longrightarrow>
      onUpload r s = s\<lparr>result := None, error := ''Upload impossible: '' @ m, loading := False\<rparr>
      \<and> fileId (onUpload r s) = fileId s \<and> columns (onUpload r s) = columns s
      \<and> preview (onUpload r s) = preview s \<and> mapping (onUpload r s) = mapping s
      \<and> result (onUpload r s) = None \<and> error (onUpload r s) = ''Upload impossible: '' @ m)
   \<and> (exec evs initial_page = Some (s0, q0) \<and> fire (Upload_settles r) (s0, q0) = Some (s1, q1)
       \<and> awaited r = Inl m \<longrightarrow>
      s1 = s0\<lparr>error := ''Upload impossible: '' @ m, loading := False\<rparr>
      \<and> fileId s1 = fileId s0 \<and> columns s1 = columns s0
      \<and> preview s1 = preview s0 \<and> mapping s1 = mapping s0
      \<and> result s1 = None \<and> error s1 = ''Upload impossible: '' @ m)"
proof (rule conjI; rule impI)
  assume "file s \<noteq> None \<and> awaited r = Inl m"
  then show "onUpload r s =
      s\<lparr>result := None, error := ''Upload impossible: '' @ m, loading := False\<rparr>
      \<and> fileId (onUpload r s) = fileId s \<and> columns (onUpload r s) = columns s
      \<and> preview (onUpload r s) = preview s \<and> mapping (onUpload r s) = mapping s
      \<and> result (onUpload r s) = None \<and> error (onUpload r s) = ''Upload impossible: '' @ m"
    by (auto simp add: onUpload_def onUpload_settle_def request_begin_def)
next
  assume a: "exec evs initial_page = Some (s0, q0)
    \<and> fire (Upload_settles r) (s0, q0) = Some (s1, q1) \<and> awaited r = Inl m"
  then have "begun (s0, q0)"
    using exec_begun [of evs "(s0, q0)"] by blast
  with a have "result s0 = None" and "s1 = onUpload_settle r s0"
    by (auto split: if_splits)
  with a show "s1 = s0\<lparr>error := ''Upload impossible: '' @ m, loading := False\<rparr>
      \<and> fileId s1 = fileId s0 \<and> columns s1 = columns s0
      \<and> preview s1 = preview s0 \<and> mapping s1 = mapping s0
      \<and> result s1 = None \<and> error s1 = ''Upload impossible: '' @ m"
    by (simp add: onUpload_settle_def)
qed

theorem onUpload_failure_witness:
  "file ready_state \<noteq> None
   \<and> awaited (Network_failure ''Failed to fetch'' :: upload_data fetch_outcome) =
       Inl ''Failed to fetch''
   \<and> onUpload (Network_failure ''Failed to fetch'') ready_state =
       ready_state\<lparr>error := ''Upload impossible: Failed to fetch''\<rparr>
   \<and> exec (one_upload @ [Submit_upload]) initial_page = Some (request_begin ready_state, Uploading)
   \<and> fire (Upload_settles (Network_failure ''Failed to fetch''))
        (request_begin ready_state, Uploading) =
       Some (ready_state\<lparr>error := ''Upload impossible: Failed to fetch''\<rparr>, Idle)"
proof -
  have f: "file ready_state \<noteq> None"
    by (simp add: ready_state_def)
  have a: "awaited (Network_failure ''Failed to fetch'' :: upload_data fetch_outcome) =
       Inl ''Failed to fetch''"
    by simp
  have e: "exec (one_upload @ [Submit_upload]) initial_page =
       Some (request_begin ready_state, Uploading)"
    by (simp add: exec_snoc exec_one_upload) (simp add: ready_state_def)
  have g: "fire (Upload_settles (Network_failure ''Failed to fetch''))
        (request_begin ready_state, Uploading) =
       Some (ready_state\<lparr>error := ''Upload impossible: Failed to fetch''\<rparr>, Idle)"
    by (simp add: onUpload_settle_def request_begin_def ready_state_def)
  from onUpload_failure [of ready_state "Network_failure ''Failed to fetch''"
      "''Failed to fetch''" "one_upload @ [Submit_upload]" "request_begin ready_state" Uploading
      "ready_state\<lparr>error := ''Upload impossible: Failed to fetch''\<rparr>" Idle] f a e g
  show ?thesis
    by (simp add: ready_state_def)
qed

subsection \<open>The mapping and the columns of the dataset\<close>

text \<open>
  Claim C2, as stated, fails: after a second upload has replaced the dataset, the fields
  that the first upload filled keep their values. The request can be issued, it carries
  the id of the second dataset, and its \<^verbatim>\<open>case_id\<close> is the column a of the first
  dataset, which the second does not have.
\<close>

theorem stale_mapping_after_second_upload:
  "exec two_uploads initial_page = Some (stale_state, Idle)
   \<and> \<not> analyze_disabled stale_state
   \<and> req_file_id (request_body stale_state) = file_id xyz_upload
   \<and> columns stale_state = data_columns xyz_upload
   \<and> case_id (req_mapping (request_body stale_state)) = ''a''
   \<and> ''a'' \<notin> set (data_columns xyz_upload)"
  by (simp add: two_uploads_def one_upload_def abc_upload_def xyz_upload_def stale_state_def
      request_body_def run_defs)

text \<open>
  Claim C2, amended. Whenever an analyze request can be issued, the submitted
  \<^verbatim>\<open>fileId\<close> and the columns offered by the selects are those of the latest successful
  upload, and every non-empty field of the submitted mapping names a column returned by
  some successful upload so far; it names a column of the dataset of the submitted
  \<^verbatim>\<open>fileId\<close> when only one upload has succeeded.
\<close>

theorem mapping_names_uploaded_columns:
  assumes "exec evs initial_page = Some (s, q)" and "\<not> analyze_disabled s"
  shows "uploads evs \<noteq> []
    \<and> req_file_id (request_body s) = file_id (last (uploads evs))
    \<and> columns s = data_columns (last (uploads evs))
    \<and> (\<forall>v \<in> set (mapping_values (req_mapping (request_body s))).
          v \<noteq> [] \<longrightarrow> (\<exists>d \<in> set (uploads evs). v \<in> set (data_columns d)))
    \<and> (length (uploads evs) = 1 \<longrightarrow>
         (\<forall>v \<in> set (mapping_values (req_mapping (request_body s))).
            v \<noteq> [] \<longrightarrow> v \<in> set (columns s)))"
proof -
  from assms(2) have f: "fileId s \<noteq> []"
    by (simp add: analyze_disabled_def canAnalyze_def js_and_def split: if_splits)
  from exec_latest [OF assms(1)] f have l: "uploads evs \<noteq> []"
    "fileId s = file_id (last (uploads evs))" "columns s = data_columns (last (uploads evs))"
    by (auto simp: latest_def split: if_splits)
  from exec_from_uploads [OF assms(1)]
  have m: "\<forall>v \<in> set (mapping_values (mapping s)).
          v \<noteq> [] \<longrightarrow> (\<exists>d \<in> set (uploads evs). v \<in> set (data_columns d))"
    by (simp add: from_uploads_def)
  have "\<forall>v \<in> set (mapping_values (mapping s)). v \<noteq> [] \<longrightarrow> v \<in> set (columns s)"
    if "length (uploads evs) = 1"
  proof -
    from that obtain d where "uploads evs = [d]"
      by (cases "uploads evs") auto
    with m l(3) show ?thesis by simp
  qed
  with l m show ?thesis
    by (simp add: request_body_def)
qed

theorem mapping_names_uploaded_columns_witness:
  "exec two_uploads initial_page = Some (stale_state, Idle)
   \<and> \<not> analyze_disabled stale_state
   \<and> uploads two_uploads = [abc_upload, xyz_upload]
   \<and> req_file_id (request_body stale_state) = file_id xyz_upload
   \<and> set (mapping_values (req_mapping (request_body stale_state))) = {''a'', ''b'', ''c'', []}
   \<and> set (data_columns abc_upload) = {''a'', ''b'', ''c''}
   \<and> exec one_upload initial_page = Some (ready_state, Idle)
   \<and> \<not> analyze_disabled ready_state
   \<and> uploads one_upload = [abc_upload]
   \<and> set (mapping_values (req_mapping (request_body ready_state))) = {''a'', ''b'', ''c'', []}
   \<and> set (columns ready_state) = {''a'', ''b'', ''c''}"
proof -
  have e: "exec two_uploads initial_page = Some (stale_state, Idle)"
    by (simp add: two_uploads_def one_upload_def abc_upload_def xyz_upload_def stale_state_def
        run_defs)
  have a: "\<not> analyze_disabled stale_state"
    by (simp add: stale_state_def run_defs)
  have u: "uploads two_uploads = [abc_upload, xyz_upload]"
    by (simp add: two_uploads_def one_upload_def uploads_def)
  have a1: "\<not> analyze_disabled ready_state"
    by (simp add: ready_state_def run_defs)
  have u1: "uploads one_upload = [abc_upload]"
    by (simp add: one_upload_def uploads_def)
  from mapping_names_uploaded_columns [OF e a]
    mapping_names_uploaded_columns [OF exec_one_upload a1] e a u exec_one_upload a1 u1
  show ?thesis
    by (auto simp: stale_state_def ready_state_def request_body_def mapping_values_def
        abc_upload_def xyz_upload_def)
qed

subsection \<open>Repeated columns\<close>

text \<open>
  Claim C3, as stated, fails: a select accepts any column whatever the other fields
  hold. After one upload and the choice of the column a for the activity, the request can
  be issued with \<^verbatim>\<open>case_id\<close> and \<^verbatim>\<open>activity\<close> both a.
\<close>

theorem repeated_column_enabled:
  "exec repeated_column initial_page = Some (repeated_state, Idle)
   \<and> \<not> analyze_disabled repeated_state
   \<and> case_id (req_mapping (request_body repeated_state)) = ''a''
   \<and> activity (req_mapping (request_body repeated_state)) = ''a''"
  by (simp add: repeated_column_def one_upload_def abc_upload_def repeated_state_def
      request_body_def run_defs)

lemma fire_no_select:
  assumes "fire e (s, q) = Some (s', q')" and "\<forall>key v. e \<noteq> Select key v"
  shows "mapping s' = (case uploaded e of [] \<Rightarrow> mapping s | d # ds \<Rightarrow> auto_fill d (mapping s))"
proof (cases e)
  case (Upload_settles r)
  with assms show ?thesis
    by (cases r) (auto simp: onUpload_settle_def split: if_splits)
next
  case (Analysis_settles r)
  with assms show ?thesis
    by (cases "awaited r") (auto simp: runAnalysis_settle_def split: if_splits in_flight.splits)
qed (use assms in \<open>auto simp: request_begin_def split: if_splits\<close>)

lemma exec_no_select:
  assumes "exec evs initial_page = Some (s, q)" and "\<forall>key v. Select key v \<notin> set evs"
  shows "(uploads evs = [] \<longrightarrow> mapping s = initial_mapping)
    \<and> (\<forall>d. uploads evs = [d] \<longrightarrow> mapping s = auto_fill d initial_mapping)"
  using assms
proof (induction evs arbitrary: s q rule: rev_induct)
  case Nil
  then show ?case
    by (auto simp: initial_page_def initial_state_def uploads_def)
next
  case (snoc e es)
  then obtain s0 q0
    where e: "exec es initial_page = Some (s0, q0)" and f: "fire e (s0, q0) = Some (s, q)"
    by (auto simp: exec_snoc split: option.splits)
  from snoc.prems(2) have n: "\<forall>key v. Select key v \<notin> set es" and ne: "\<forall>key v. e \<noteq> Select key v"
    by auto
  note ih = snoc.IH [OF e n]
  note m = fire_no_select [OF f ne]
  show ?case
  proof (cases "uploaded e")
    case Nil
    with ih m show ?thesis by (simp add: uploads_snoc)
  next
    case (Cons d ds)
    then have "uploaded e = [d]"
      by (cases e rule: uploaded.cases) auto
    with ih m show ?thesis
      by (auto simp: uploads_snoc append_eq_Cons_conv)
  qed
qed

text \<open>
  Claim C3, amended. When an analyze request can be issued after a single successful
  upload of a dataset with distinct column names and no select has been changed, the
  submitted \<^verbatim>\<open>case_id\<close>, \<^verbatim>\<open>activity\<close> and \<^verbatim>\<open>timestamp\<close> are the first three
  columns, mutually distinct, and \<^verbatim>\<open>resource\<close> is not set.
\<close>

theorem auto_filled_mapping_distinct:
  assumes "exec evs initial_page = Some (s, q)" and "\<not> analyze_disabled s"
    and "uploads evs = [d]" and "distinct (data_columns d)"
    and "\<forall>key v. Select key v \<notin> set evs"
  shows "distinct [case_id (req_mapping (request_body s)),
                   activity (req_mapping (request_body s)),
                   timestamp (req_mapping (request_body s))]
    \<and> resource (req_mapping (request_body s)) = []
    \<and> case_id (req_mapping (request_body s)) = data_columns d ! 0
    \<and> activity (req_mapping (request_body s)) = data_columns d ! 1
    \<and> timestamp (req_mapping (request_body s)) = data_columns d ! 2"
proof -
  from exec_no_select [OF assms(1,5)] assms(3)
  have m: "mapping s = auto_fill d initial_mapping" by simp
  from assms(2) have ne: "case_id (mapping s) \<noteq> []" "activity (mapping s) \<noteq> []"
    "timestamp (mapping s) \<noteq> []"
    by (simp_all add: analyze_disabled_def canAnalyze_def js_and_def split: if_splits)
  with m have len: "2 < length (data_columns d)"
    by (auto simp: auto_fill_def initial_mapping_def js_or_def column_or_empty_def
        split: if_splits)
  with m have v: "case_id (mapping s) = data_columns d ! 0"
    "activity (mapping s) = data_columns d ! 1" "timestamp (mapping s) = data_columns d ! 2"
    "resource (mapping s) = []"
    by (auto simp: auto_fill_def initial_mapping_def js_or_def column_or_empty_def)
  have neq: "data_columns d ! i \<noteq> data_columns d ! j"
    if "i < length (data_columns d)" and "j < length (data_columns d)" and "i \<noteq> j" for i j
    using that assms(4) by (simp add: nth_eq_iff_index_eq)
  from len have "0 < length (data_columns d)" and "1 < length (data_columns d)"
    by auto
  with len neq [of 0 1] neq [of 0 2] neq [of 1 2]
  have "distinct [data_columns d ! 0, data_columns d ! 1, data_columns d ! 2]"
    by auto
  with v show ?thesis
    by (simp add: request_body_def)
qed

theorem auto_filled_mapping_distinct_witness:
  "exec one_upload initial_page = Some (ready_state, Idle)
   \<and> \<not> analyze_disabled ready_state
   \<and> uploads one_upload = [abc_upload]
   \<and> distinct (data_columns abc_upload)
   \<and> req_mapping (request_body ready_state) =
       \<lparr>case_id = ''a'', activity = ''b'', timestamp = ''c'', resource = []\<rparr>"
proof -
  have a: "\<not> analyze_disabled ready_state"
    by (simp add: ready_state_def run_defs)
  have u: "uploads one_upload = [abc_upload]"
    by (simp add: one_upload_def uploads_def)
  have d: "distinct (data_columns abc_upload)"
    by (simp add: abc_upload_def)
  have n: "\<forall>key v. Select key v \<notin> set one_upload"
    by (simp add: one_upload_def)
  from auto_filled_mapping_distinct [OF exec_one_upload a u d n] exec_one_upload a u d
  show ?thesis
    by (simp add: ready_state_def request_body_def)
qed

subsection \<open>The preview\<close>

lemma Upload_preview:
  assumes "Upload parse_table st src = Inr (d, st')"
  shows "\<exists>t. parse_table src = Some t \<and> data_preview d = take 20 (table_rows t)"
  using assms by (auto simp: Upload_def capped_preview_def split: option.splits if_splits)

lemma length_preview_rows: "length (preview_rows s) = length (preview s)"
  by (simp add: preview_rows_def)

text \<open>
  Claim C6. The component renders one row per entry of the preview it received, and the
  backend, as specified, answers an upload with the first 20 rows of the table. So the
  preview shown after an upload is the first 20 rows of the uploaded table, at most 20
  rows; and in every state reached by events whose uploads were answered by that backend
  the preview table has at most 20 rows.
\<close>

theorem preview_first_20_rows:
  "(file s \<noteq> None \<and> parse_table src = Some t \<and> Upload parse_table st src = Inr (d, st')
      \<longrightarrow> preview_rows (onUpload (Ok_json d) s) =
            map (\<lambda>row. map (\<lambda>(key, v). String_js v) row) (take 20 (table_rows t))
          \<and> length (preview_rows (onUpload (Ok_json d) s)) \<le> 20)
   \<and> (exec evs initial_page = Some (s', q)
       \<and> (\<forall>d \<in> set (uploads evs). \<exists>st src st'. Upload parse_table st src = Inr (d, st'))
      \<longrightarrow> length (preview_rows s') \<le> 20)"
proof (intro conjI impI)
  assume a: "file s \<noteq> None \<and> parse_table src = Some t \<and> Upload parse_table st src = Inr (d, st')"
  with Upload_preview [of parse_table st src d st']
  have p: "data_preview d = take 20 (table_rows t)" by auto
  from a have "preview (onUpload (Ok_json d) s) = data_preview d"
    by (auto simp: onUpload_def onUpload_settle_def request_begin_def)
  with p show "preview_rows (onUpload (Ok_json d) s) =
            map (\<lambda>row. map (\<lambda>(key, v). String_js v) row) (take 20 (table_rows t))"
    by (simp add: preview_rows_def)
  then show "length (preview_rows (onUpload (Ok_json d) s)) \<le> 20"
    by simp
next
  assume a: "exec evs initial_page = Some (s', q)
       \<and> (\<forall>d \<in> set (uploads evs). \<exists>st src st'. Upload parse_table st src = Inr (d, st'))"
  then have l: "latest (uploads evs) s'"
    by (simp add: exec_latest)
  show "length (preview_rows s') \<le> 20"
  proof (cases "uploads evs = []")
    case True
    with l show ?thesis by (simp add: latest_def preview_rows_def)
  next
    case False
    then have "last (uploads evs) \<in> set (uploads evs)" by simp
    with a obtain st src st' where "Upload parse_table st src = Inr (last (uploads evs), st')"
      by blast
    from Upload_preview [OF this] have "length (data_preview (last (uploads evs))) \<le> 20"
      by auto
    with l False show ?thesis
      by (simp add: latest_def length_preview_rows)
  qed
qed

theorem preview_first_20_rows_witness:
  "file chosen_state \<noteq> None
   \<and> Upload Some empty_store long_table = Inr (long_upload, snd (put empty_store long_table))
   \<and> length (table_rows long_table) = 21
   \<and> preview_rows (onUpload (Ok_json long_upload) chosen_state) = replicate 20 [''x'']
   \<and> exec [Choose_file (Some ''log.csv''), Submit_upload, Upload_settles (Ok_json long_upload)]
        initial_page = Some (onUpload (Ok_json long_upload) chosen_state, Idle)"
proof -
  let ?evs = "[Choose_file (Some ''log.csv''), Submit_upload, Upload_settles (Ok_json long_upload)]"
  let ?s = "onUpload (Ok_json long_upload) chosen_state"
  have f: "file chosen_state \<noteq> None"
    by (simp add: chosen_state_def)
  have u: "Upload Some empty_store long_table =
           Inr (long_upload, snd (put empty_store long_table))"
    by (simp add: Upload_def long_table_def long_upload_def put_def empty_store_def
        fresh_id_def capped_preview_def)
  have e: "exec ?evs initial_page = Some (?s, Idle)"
    by (simp add: chosen_state_def onUpload_def initial_page_def initial_state_def
        request_begin_def)
  have us: "\<forall>d \<in> set (uploads ?evs).
              \<exists>st src st'. Upload Some st src = Inr (d, st')"
    using u by (auto simp: uploads_def)
  from preview_first_20_rows [of chosen_state Some long_table long_table empty_store
      long_upload "snd (put empty_store long_table)" ?evs ?s Idle] f u e us
  show ?thesis
    by (simp add: long_table_def)
qed

subsection \<open>One analysis failing\<close>

lemma resolve_Inr:
  assumes "\<forall>m \<in> set ns. \<exists>g. reg m = Some g"
  shows "\<exists>fs. resolve reg ns = Inr fs \<and> map fst fs = ns \<and> (\<forall>(m, g) \<in> set fs. reg m = Some g)"
  using assms by (induction ns) (auto split: option.splits sum.splits)

lemma map_of_outcomes:
  assumes "\<forall>(m, g) \<in> set fs. reg m = Some g" and "m \<in> fst ` set fs" and "reg m = Some g"
  shows "map_of (map (\<lambda>(n, f). (n, f log)) fs) m = Some (g log)"
  using assms by (induction fs) (auto split: if_splits)

lemma overall_status_Partial:
  assumes "(n, Inl why) \<in> set rs" and "(k, Inr p) \<in> set rs"
  shows "overall_status rs = Partial"
proof -
  from assms(1) have "\<not> list_all (\<lambda>(n, r). \<not> isl r) rs"
    by (force simp: list_all_iff)
  moreover from assms(2) have "list_ex (\<lambda>(n, r). \<not> isl r) rs"
    by (force simp: list_ex_iff)
  ultimately show ?thesis
    by (simp add: overall_status_def)
qed

text \<open>
  Claim C7, on the orchestrator as specified. When the dataset is found and the mapping
  valid, and one requested analysis fails while the other requested analyses (there is at
  least one) succeed on the log, the request is answered, the status is \<open>partial\<close>, the
  results have one entry per requested name, the entry of the failing analysis is its
  failure, and the entry of every other analysis is its success. The entry of each
  analysis is its own outcome on the log, whatever the others do.
\<close>

theorem one_failure_is_partial:
  assumes "get st (req_file_id request) = Some ds"
    and "validate_and_map ds (req_mapping request) = Inr log"
    and "n \<in> set (req_analyses request)" and "reg n = Some f" and "f log = Inl why"
    and "k \<in> set (req_analyses request)" and "k \<noteq> n"
    and "\<forall>m \<in> set (req_analyses request). m \<noteq> n \<longrightarrow> (\<exists>g p. reg m = Some g \<and> g log = Inr p)"
  shows "\<exists>resp. Analyze st validate_and_map reg request = Inr resp
    \<and> resp_status resp = Partial
    \<and> map fst (resp_results resp) = req_analyses request
    \<and> map_of (resp_results resp) n = Some (Inl why)
    \<and> (\<forall>m \<in> set (req_analyses request). \<forall>g. reg m = Some g \<longrightarrow>
          map_of (resp_results resp) m = Some (g log))
    \<and> (\<forall>m \<in> set (req_analyses request). m \<noteq> n \<longrightarrow>
          (\<exists>p. map_of (resp_results resp) m = Some (Inr p)))"
proof -
  have "\<exists>g. reg m = Some g" if "m \<in> set (req_analyses request)" for m
  proof (cases "m = n")
    case True
    with assms(4) show ?thesis by simp
  next
    case False
    with assms(8) that obtain g p where "reg m = Some g" and "g log = Inr p" by blast
    then show ?thesis by simp
  qed
  then have "\<forall>m \<in> set (req_analyses request). \<exists>g. reg m = Some g"
    by simp
  from resolve_Inr [OF this] obtain fs
    where fs: "resolve reg (req_analyses request) = Inr fs"
      and names: "map fst fs = req_analyses request"
      and known: "\<forall>(m, g) \<in> set fs. reg m = Some g"
    by blast
  let ?rs = "map (\<lambda>(n, f). (n, f log)) fs"
  let ?resp = "\<lparr>resp_status = overall_status ?rs, resp_results = ?rs, resp_error = None\<rparr>"
  from assms(3) have ne: "req_analyses request \<noteq> []" by auto
  with fs assms(1,2) have a: "Analyze st validate_and_map reg request = Inr ?resp"
    by (simp add: Analyze_def run_def)
  have dom: "fst ` set fs = set (req_analyses request)"
    using names by (metis set_map)
  have each: "map_of ?rs m = Some (g log)"
    if "m \<in> set (req_analyses request)" and "reg m = Some g" for m g
    using map_of_outcomes [OF known _ that(2)] that(1) dom by simp
  from each [OF assms(3,4)] assms(5) have failed: "map_of ?rs n = Some (Inl why)"
    by simp
  from assms(6,7,8) obtain g p where kg: "reg k = Some g" "g log = Inr p"
    by blast
  with each [OF assms(6)] have ok: "map_of ?rs k = Some (Inr p)"
    by simp
  from overall_status_Partial [OF map_of_SomeD [OF failed] map_of_SomeD [OF ok]]
  have st: "overall_status ?rs = Partial" .
  have fsts: "map fst ?rs = req_analyses request"
    using names by (simp add: case_prod_unfold comp_def)
  have others: "\<exists>p. map_of ?rs m = Some (Inr p)"
    if "m \<in> set (req_analyses request)" and "m \<noteq> n" for m
  proof -
    from assms(8) that obtain g p where "reg m = Some g" "g log = Inr p" by blast
    with each [OF that(1)] show ?thesis by simp
  qed
  from a st fsts failed each others show ?thesis
    by auto
qed

theorem one_failure_is_partial_witness:
  "Analyze demo_store demo_mapper demo_registry demo_request =
     Inr \<lparr>resp_status = Partial,
          resp_results = [(''discovery'', Inr 0), (''statistics'', Inl ''no cases''),
                          (''variants'', Inr 0)],
          resp_error = None\<rparr>
   \<and> get demo_store (req_file_id demo_request) \<noteq> None
   \<and> (\<exists>f. demo_registry ''statistics'' = Some f \<and> f [] = Inl ''no cases'')"
proof -
  let ?ds = "\<lparr>ds_columns = [''a''], ds_rows = table_rows long_table,
              ds_preview = capped_preview long_table\<rparr>"
  let ?f = "\<lambda>log :: nat list. if log = [] then Inl ''no cases'' else (Inr (sum_list log) :: string + nat)"
  have g: "get demo_store (req_file_id demo_request) = Some ?ds"
    by (simp add: demo_store_def get_def put_def empty_store_def fresh_id_def demo_request_def
        long_table_def)
  have v: "demo_mapper ?ds (req_mapping demo_request) = Inr []"
    by (simp add: demo_mapper_def)
  have n: "''statistics'' \<in> set (req_analyses demo_request)"
    and k: "''variants'' \<in> set (req_analyses demo_request)"
    by (simp_all add: demo_request_def)
  have f: "demo_registry ''statistics'' = Some ?f"
    by (simp add: demo_registry_def)
  have why: "?f [] = Inl ''no cases''"
    by simp
  have others: "\<forall>m \<in> set (req_analyses demo_request).
      m \<noteq> ''statistics'' \<longrightarrow> (\<exists>g p. demo_registry m = Some g \<and> g [] = Inr p)"
    by (simp add: demo_request_def demo_registry_def)
  have kn: "''variants'' \<noteq> ''statistics''"
    by simp
  from one_failure_is_partial [where st = demo_store and request = demo_request and ds = ?ds
      and validate_and_map = demo_mapper and log = "[]" and reg = demo_registry
      and n = "''statistics''" and f = ?f and why = "''no cases''" and k = "''variants''",
      OF g v n f why k kn others]
  obtain resp where "Analyze demo_store demo_mapper demo_registry demo_request = Inr resp"
    and "resp_status resp = Partial"
    by auto
  moreover have "Analyze demo_store demo_mapper demo_registry demo_request =
     Inr \<lparr>resp_status = overall_status
            [(''discovery'', Inr (0::nat)), (''statistics'', Inl ''no cases''),
             (''variants'', Inr 0)],
          resp_results = [(''discovery'', Inr 0), (''statistics'', Inl ''no cases''),
                          (''variants'', Inr 0)],
          resp_error = None\<rparr>"
    using g v by (simp add: Analyze_def run_def demo_request_def demo_registry_def)
  ultimately show ?thesis
    using g f why by auto
qed

subsection \<open>runAnalysis\<close>

text \<open>
  Claim C10. Once \<^verbatim>\<open>runAnalysis\<close> has settled, \<^verbatim>\<open>loading\<close> is false and exactly one
  of two states holds: the request succeeded, \<^verbatim>\<open>result\<close> is the parsed body and
  \<^verbatim>\<open>error\<close> is empty; or \<^verbatim>\<open>result\<close> is null and \<^verbatim>\<open>error\<close> is a non-empty message
  that starts with ``Analyse impossible: ''. This holds of the handler run from any state,
  and of the page when the request settles after any events that came in between.
\<close>

theorem runAnalysis_settled:
  "(\<not> loading (runAnalysis r s)
    \<and> ((\<exists>body. r = Ok_json body \<and> result (runAnalysis r s) = Some body
                \<and> error (runAnalysis r s) = [])
       \<or> (result (runAnalysis r s) = None \<and> error (runAnalysis r s) \<noteq> []
           \<and> (\<exists>m. error (runAnalysis r s) = ''Analyse impossible: '' @ m)))
    \<and> \<not> ((\<exists>body. r = Ok_json body \<and> result (runAnalysis r s) = Some body
                \<and> error (runAnalysis r s) = [])
       \<and> (result (runAnalysis r s) = None \<and> error (runAnalysis r s) \<noteq> []
           \<and> (\<exists>m. error (runAnalysis r s) = ''Analyse impossible: '' @ m))))
   \<and> (exec evs initial_page = Some (s0, q0) \<and> fire (Analysis_settles r) (s0, q0) = Some (s1, q1)
      \<longrightarrow> \<not> loading s1
        \<and> ((\<exists>body. r = Ok_json body \<and> result s1 = Some body \<and> error s1 = [])
           \<or> (result s1 = None \<and> error s1 \<noteq> []
               \<and> (\<exists>m. error s1 = ''Analyse impossible: '' @ m)))
        \<and> \<not> ((\<exists>body. r = Ok_json body \<and> result s1 = Some body \<and> error s1 = [])
           \<and> (result s1 = None \<and> error s1 \<noteq> []
               \<and> (\<exists>m. error s1 = ''Analyse impossible: '' @ m))))"
proof (intro conjI impI)
  show "\<not> loading (runAnalysis r s)"
    by (cases r) (simp_all add: runAnalysis_def runAnalysis_settle_def request_begin_def)
  show "(\<exists>body. r = Ok_json body \<and> result (runAnalysis r s) = Some body
                \<and> error (runAnalysis r s) = [])
       \<or> (result (runAnalysis r s) = None \<and> error (runAnalysis r s) \<noteq> []
           \<and> (\<exists>m. error (runAnalysis r s) = ''Analyse impossible: '' @ m))"
    by (cases r) (simp_all add: runAnalysis_def runAnalysis_settle_def request_begin_def)
  show "\<not> ((\<exists>body. r = Ok_json body \<and> result (runAnalysis r s) = Some body
                \<and> error (runAnalysis r s) = [])
       \<and> (result (runAnalysis r s) = None \<and> error (runAnalysis r s) \<noteq> []
           \<and> (\<exists>m. error (runAnalysis r s) = ''Analyse impossible: '' @ m)))"
    by (cases r) (simp_all add: runAnalysis_def runAnalysis_settle_def request_begin_def)
next
  assume a: "exec evs initial_page = Some (s0, q0) \<and> fire (Analysis_settles r) (s0, q0) = Some (s1, q1)"
  then have "begun (s0, q0)" using exec_begun [of evs "(s0, q0)"] by blast
  with a have b: "error s0 = []" "result s0 = None" and s1: "s1 = runAnalysis_settle r s0"
    by (auto split: in_flight.splits if_splits)
  from b s1 show "\<not> loading s1"
    by (cases r) (simp_all add: runAnalysis_settle_def)
  from b s1 show "(\<exists>body. r = Ok_json body \<and> result s1 = Some body \<and> error s1 = [])
           \<or> (result s1 = None \<and> error s1 \<noteq> []
               \<and> (\<exists>m. error s1 = ''Analyse impossible: '' @ m))"
    by (cases r) (simp_all add: runAnalysis_settle_def)
  from b s1 show "\<not> ((\<exists>body. r = Ok_json body \<and> result s1 = Some body \<and> error s1 = [])
           \<and> (result s1 = None \<and> error s1 \<noteq> []
               \<and> (\<exists>m. error s1 = ''Analyse impossible: '' @ m)))"
    by (cases r) (simp_all add: runAnalysis_settle_def)
qed

theorem runAnalysis_settled_witness:
  "exec (one_upload @ [Click_analyze]) initial_page =
     Some (request_begin ready_state, Analyzing (request_body ready_state))
   \<and> fire (Analysis_settles (Ok_json six_body))
        (request_begin ready_state, Analyzing (request_body ready_state)) =
       Some (ready_state\<lparr>result := Some six_body\<rparr>, Idle)
   \<and> runAnalysis (Ok_json six_body) ready_state = ready_state\<lparr>result := Some six_body\<rparr>
   \<and> error (ready_state\<lparr>result := Some six_body\<rparr>) = []
   \<and> \<not> loading (ready_state\<lparr>result := Some six_body\<rparr>)"
proof -
  have e: "exec (one_upload @ [Click_analyze]) initial_page =
     Some (request_begin ready_state, Analyzing (request_body ready_state))"
    by (simp add: exec_snoc exec_one_upload) (simp add: ready_state_def run_defs)
  have f: "fire (Analysis_settles (Ok_json six_body))
        (request_begin ready_state, Analyzing (request_body ready_state)) =
       Some (ready_state\<lparr>result := Some six_body\<rparr>, Idle)"
    by (simp add: runAnalysis_settle_def request_begin_def ready_state_def)
  have r: "runAnalysis (Ok_json six_body) ready_state = ready_state\<lparr>result := Some six_body\<rparr>"
    by (simp add: runAnalysis_def runAnalysis_settle_def request_begin_def ready_state_def)
  from runAnalysis_settled [of "Ok_json six_body" ready_state "one_upload @ [Click_analyze]"
      "request_begin ready_state" "Analyzing (request_body ready_state)"
      "ready_state\<lparr>result := Some six_body\<rparr>" Idle] e f r
  show ?thesis
    by (simp add: ready_state_def)
qed

end
